theory Spec2Isabelle
  imports Main "HOL-Library.Sublist"
begin

section \<open>Text\<close>

text \<open>
  Python strings are modelled as \<open>string\<close> (lists of characters). Case mapping is the
  ASCII one: \<open>str.lower\<close> maps \<open>A..Z\<close> to \<open>a..z\<close> and \<open>str.upper\<close> maps \<open>a..z\<close> to
  \<open>A..Z\<close>; every other character is left as it is.
\<close>

definition ascii_upper :: string where
  "ascii_upper = ''ABCDEFGHIJKLMNOPQRSTUVWXYZ''"

definition ascii_lower :: string where
  "ascii_lower = ''abcdefghijklmnopqrstuvwxyz''"

definition lower_char :: "char \<Rightarrow> char" where
  "lower_char c = (case map_of (zip ascii_upper ascii_lower) c of Some d \<Rightarrow> d | None \<Rightarrow> c)"

definition upper_char :: "char \<Rightarrow> char" where
  "upper_char c = (case map_of (zip ascii_lower ascii_upper) c of Some d \<Rightarrow> d | None \<Rightarrow> c)"

definition lower :: "string \<Rightarrow> string" where
  "lower s = map lower_char s"

text \<open>\<open>str.capitalize\<close>: the first character upper-cased, all the others lower-cased.\<close>

fun capitalize :: "string \<Rightarrow> string" where
  "capitalize [] = []"
| "capitalize (c # cs) = upper_char c # map lower_char cs"

text \<open>\<open>sub in s\<close>: \<open>sub\<close> occurs in \<open>s\<close> as a contiguous run of characters.\<close>

fun str_in :: "string \<Rightarrow> string \<Rightarrow> bool" where
  "str_in sub [] = (sub = [])"
| "str_in sub (c # cs) = (prefix sub (c # cs) \<or> str_in sub cs)"

text \<open>
  \<open>s.replace(old, new)\<close>: every occurrence of \<open>old\<close>, found from left to right without
  overlap, is replaced by \<open>new\<close>. With an empty \<open>old\<close> Python inserts \<open>new\<close> before every
  character and at the end.
\<close>

function str_replace :: "string \<Rightarrow> string \<Rightarrow> string \<Rightarrow> string" where
  "str_replace s old new =
     (if old = [] then new @ concat (map (\<lambda>c. c # new) s)
      else if s = [] then []
      else if prefix old s then new @ str_replace (drop (length old) s) old new
      else hd s # str_replace (tl s) old new)"
  by pat_completeness auto
termination
  by (relation "measure (\<lambda>(s, old, new). length s)") auto

declare str_replace.simps [simp del]

text \<open>\<open>sep.join(parts)\<close>.\<close>

fun join :: "string \<Rightarrow> string list \<Rightarrow> string" where
  "join sep [] = []"
| "join sep [p] = p"
| "join sep (p # q # ps) = p @ sep @ join sep (q # ps)"

section \<open>Capability gateway (app.py, \<open>call_llm_with_retry\<close>)\<close>

text \<open>
  One invocation of the generation capability either returns a reply or raises an
  exception; such an exception is identified with its description \<open>str(e)\<close>. The other
  constructors are the exceptions the storage code can raise.
\<close>

datatype exn = Exn string | JSONDecodeError | AttributeError | TypeError

datatype outcome = Reply string | Failure string

text \<open>The test of the \<open>except\<close> branch: \<open>"rate_limit" in str(e).lower()\<close>.\<close>

definition rate_limited :: "string \<Rightarrow> bool" where
  "rate_limited d = str_in ''rate_limit'' (lower d)"

definition is_transient :: "outcome \<Rightarrow> bool" where
  "is_transient out = (case out of Reply r \<Rightarrow> False | Failure d \<Rightarrow> rate_limited d)"

text \<open>
  What one run of the gateway did: the value returned or the exception raised, the number
  of invocations of the capability, and the arguments of the calls of \<open>sleep\<close>, in order.
\<close>

record gateway_run =
  result :: "exn + string"
  calls :: nat
  sleeps :: "nat list"

text \<open>
  The stateful capability is a function from the number of earlier invocations to the
  outcome of the next one. \<open>retry_loop runnable attempt n slept\<close> is the \<open>for\<close> loop with
  \<open>n\<close> iterations left, the loop variable at \<open>attempt\<close>; falling out of the loop raises
  \<open>Exception("Max retries exceeded")\<close>.
\<close>

fun retry_loop :: "(nat \<Rightarrow> outcome) \<Rightarrow> nat \<Rightarrow> nat \<Rightarrow> nat list \<Rightarrow> gateway_run" where
  "retry_loop runnable attempt 0 slept =
     \<lparr>result = Inl (Exn ''Max retries exceeded''), calls = attempt, sleeps = slept\<rparr>"
| "retry_loop runnable attempt (Suc n) slept =
     (case runnable attempt of
        Reply r \<Rightarrow> \<lparr>result = Inr r, calls = Suc attempt, sleeps = slept\<rparr>
      | Failure d \<Rightarrow>
          if rate_limited d
          then retry_loop runnable (Suc attempt) n (slept @ [2 ^ attempt])
          else \<lparr>result = Inl (Exn d), calls = Suc attempt, sleeps = slept\<rparr>)"

definition call_llm_with_retry :: "(nat \<Rightarrow> outcome) \<Rightarrow> nat \<Rightarrow> gateway_run" where
  "call_llm_with_retry runnable max_retries = retry_loop runnable 0 max_retries []"

text \<open>The default \<open>max_retries=3\<close>, which every caller uses.\<close>

definition generate :: "(nat \<Rightarrow> outcome) \<Rightarrow> gateway_run" where
  "generate runnable = call_llm_with_retry runnable 3"

section \<open>Summarising variant (app.py)\<close>

subsection \<open>Session history store\<close>

text \<open>A message is its type (\<open>human\<close>, \<open>ai\<close>) or role and its content.\<close>

type_synonym message = "string \<times> string"

text \<open>
  \<open>get_session_history\<close>: the history of a session, created empty in the global \<open>store\<close>
  on the first request.
\<close>

definition get_session_history ::
  "(string \<rightharpoonup> message list) \<Rightarrow> string \<Rightarrow> (string \<rightharpoonup> message list) \<times> message list" where
  "get_session_history store session_id =
     (case store session_id of
        None \<Rightarrow> (store(session_id \<mapsto> []), [])
      | Some h \<Rightarrow> (store, h))"

definition newline :: string where
  "newline = [CHR 0x0A]"

text \<open>\<open>"\n".join([f"{msg.type}: {msg.content}" for msg in history])\<close>.\<close>

definition render_history :: "message list \<Rightarrow> string" where
  "render_history history = join newline (map (\<lambda>(t, c). t @ '': '' @ c) history)"

subsection \<open>Room-type fallback\<close>

definition room_types :: "string list" where
  "room_types = [''king bed'', ''double bed'', ''queen bed'', ''suite'', ''single bed'']"

text \<open>The \<open>for room in room_types\<close> loop of \<open>parse_room_type\<close>.\<close>

fun parse_room_loop :: "string list \<Rightarrow> string \<Rightarrow> string" where
  "parse_room_loop [] history_lower = ''Not Specified''"
| "parse_room_loop (room # rooms) history_lower =
     (if str_in room history_lower then capitalize room
      else parse_room_loop rooms history_lower)"

definition parse_room_type :: "string \<Rightarrow> string" where
  "parse_room_type history_str = parse_room_loop room_types (lower history_str)"

definition sentinel :: string where
  "sentinel = ''Room Type: Not Specified''"

text \<open>Lines 153 to 156 of app.py: the fallback applied to the summary.\<close>

definition apply_fallback :: "string \<Rightarrow> string \<Rightarrow> string" where
  "apply_fallback history_str summary =
     (if str_in sentinel summary
      then str_replace summary sentinel (''Room Type: '' @ parse_room_type history_str)
      else summary)"

subsection \<open>Profile table and one turn\<close>

text \<open>
  The table \<open>user_profiles\<close>: rows of \<open>(user_id, preferences)\<close> in insertion order.
  \<open>filter_by(user_id=...).first()\<close> is the first row of the user; the turn overwrites its
  \<open>preferences\<close> column, or adds a row when there is none.
\<close>

type_synonym profiles = "(string \<times> string) list"


fun set_profile :: "profiles \<Rightarrow> string \<Rightarrow> string \<Rightarrow> profiles" where
  "set_profile [] user_id summary = [(user_id, summary)]"
| "set_profile ((u, p) # rows) user_id summary =
     (if u = user_id then (u, summary) # rows
      else (u, p) # set_profile rows user_id summary)"

text \<open>
  The state a turn reads and writes: the conversation log shown in the page
  (\<open>st.session_state.messages\<close>), the session history store, the table, and the
  preferences kept in the session (\<open>st.session_state.preferences\<close>).
\<close>

record app_state =
  ui_messages :: "message list"
  store :: "string \<rightharpoonup> message list"
  user_profiles :: profiles
  session_preferences :: string

text \<open>
  What a turn did: the exception that ended it, if any; the state it left; the number of
  invocations of the reply chain and of the summary model.
\<close>

record turn_result =
  raised :: "exn option"
  state_after :: app_state
  chain_calls :: nat
  summary_calls :: nat

text \<open>
  Lines 113 to 169 of app.py. \<open>chain\<close> gives the outcomes of the successive invocations
  of the reply chain in this turn. The chain is a \<open>RunnableWithMessageHistory\<close>: an
  invocation asks \<open>get_session_history\<close> for the history of the session first, and a
  successful one appends the human message and the reply to it. \<open>summary_llm\<close> is the
  summary model as a function of the two texts the prompt template is filled with, the
  rendered history and the user name.
\<close>

definition app_turn ::
  "(nat \<Rightarrow> outcome) \<Rightarrow> (string \<Rightarrow> string \<Rightarrow> outcome) \<Rightarrow> string \<Rightarrow> string \<Rightarrow> string \<Rightarrow>
   app_state \<Rightarrow> turn_result" where
  "app_turn chain summary_llm user_id user_name user_input st =
     (let st1 = st\<lparr>ui_messages := ui_messages st @ [(''user'', user_input)]\<rparr>;
          (store1, history0) = get_session_history (store st1) user_id;
          st2 = st1\<lparr>store := store1\<rparr>;
          run = generate chain
      in case result run of
           Inl e \<Rightarrow>
             \<lparr>raised = Some e, state_after = st2, chain_calls = calls run, summary_calls = 0\<rparr>
         | Inr content \<Rightarrow>
             (let history = history0 @ [(''human'', user_input), (''ai'', content)];
                  st3 = st2\<lparr>store := store1(user_id \<mapsto> history),
                            ui_messages := ui_messages st2 @ [(''assistant'', content)]\<rparr>;
                  history_str = render_history history
              in case summary_llm history_str user_name of
                   Failure d \<Rightarrow>
                     \<lparr>raised = Some (Exn d), state_after = st3, chain_calls = calls run,
                      summary_calls = 1\<rparr>
                 | Reply summary0 \<Rightarrow>
                     (let summary = apply_fallback history_str summary0;
                          st4 = st3\<lparr>user_profiles := set_profile (user_profiles st3) user_id summary,
                                    session_preferences := summary\<rparr>
                      in \<lparr>raised = None, state_after = st4, chain_calls = calls run,
                          summary_calls = 1\<rparr>)))"

text \<open>The history of a session as \<open>get_session_history\<close> returns it.\<close>

definition history_of :: "app_state \<Rightarrow> string \<Rightarrow> message list" where
  "history_of st session_id = snd (get_session_history (store st) session_id)"

section \<open>Long-term memory (the three variants of the hotel booking chatbot)\<close>

subsection \<open>Data\<close>

text \<open>
  An entry of the history is the dictionary \<open>{"user_input": ..., "assistant_response": ...}\<close>.
  The preferences are a Python dictionary: an association list in insertion order, in
  which assigning to a key that is present overwrites its value in place and assigning to
  a new key appends it.
\<close>

record interaction =
  user_input :: string
  assistant_response :: string

type_synonym prefs = "(string \<times> string) list"

record memory =
  preferences :: prefs
  history :: "interaction list"

definition empty_memory :: memory where
  "empty_memory = \<lparr>preferences = [], history = []\<rparr>"

fun dict_set :: "('k \<times> 'v) list \<Rightarrow> 'k \<Rightarrow> 'v \<Rightarrow> ('k \<times> 'v) list" where
  "dict_set [] k v = [(k, v)]"
| "dict_set ((k', v') # d) k v =
     (if k' = k then (k, v) # d else (k', v') # dict_set d k v)"

text \<open>\<open>d.get(k, default)\<close>.\<close>

definition dict_get :: "('k \<times> 'v) list \<Rightarrow> 'k \<Rightarrow> 'v \<Rightarrow> 'v" where
  "dict_get d k dflt = (case map_of d k of None \<Rightarrow> dflt | Some v \<Rightarrow> v)"

subsection \<open>Context composer (\<open>main\<close>, variants 2 and 3)\<close>








subsection \<open>Heuristic consolidation (\<open>main\<close>, all variants)\<close>


subsection \<open>Flat-file backend (variants 1 and 2)\<close>

text \<open>
  The memory file is its text, or \<open>None\<close> when it does not exist. The JSON codec is a
  parameter: \<open>loads\<close> is \<open>json.loads\<close>, with \<open>None\<close> for a \<open>JSONDecodeError\<close>, and
  \<open>dumps\<close> is the text \<open>json.dump(data, f, indent=2)\<close> writes. A parsed document is a
  dictionary from user ids to memories, or some other JSON value. The entries of a
  dictionary are taken to have the shape \<open>save_long_term_memory\<close> writes.
\<close>

datatype json_doc = NonDict | Dict "(string \<times> memory) list"

text \<open>The characters \<open>str.strip\<close> removes: tab to carriage return, the four separators, space.\<close>

definition whitespace :: "char \<Rightarrow> bool" where
  "whitespace c =
     (c \<in> set [CHR 0x09, CHR 0x0A, CHR 0x0B, CHR 0x0C, CHR 0x0D, CHR 0x1C, CHR 0x1D, CHR 0x1E,
               CHR 0x1F, CHR 0x20])"

definition strip :: "string \<Rightarrow> string" where
  "strip s = rev (dropWhile whitespace (rev (dropWhile whitespace s)))"

text \<open>Variant 2: a file that does not parse is read as no data.\<close>

definition load_long_term_memory2 ::
  "(string \<Rightarrow> json_doc option) \<Rightarrow> string option \<Rightarrow> string \<Rightarrow> exn + memory" where
  "load_long_term_memory2 loads file user_id =
     (case file of
        None \<Rightarrow> Inr empty_memory
      | Some text \<Rightarrow>
          (let content = strip text in
           if content \<noteq> [] then
             (case loads content of
                None \<Rightarrow> Inr empty_memory
              | Some NonDict \<Rightarrow> Inl AttributeError
              | Some (Dict data) \<Rightarrow> Inr (dict_get data user_id empty_memory))
           else Inr empty_memory))"

text \<open>
  A save returns the file it leaves and the exception it raised, if any. The file is
  opened for writing only after \<open>data[user_id] = memory_data\<close>, so an exception leaves
  it as it was.
\<close>

definition store_entry ::
  "(json_doc \<Rightarrow> string) \<Rightarrow> string option \<Rightarrow> json_doc \<Rightarrow> string \<Rightarrow> memory \<Rightarrow>
   string option \<times> exn option" where
  "store_entry dumps file data user_id memory_data =
     (case data of
        NonDict \<Rightarrow> (file, Some TypeError)
      | Dict d \<Rightarrow> (Some (dumps (Dict (dict_set d user_id memory_data))), None))"

text \<open>
  The first lines of \<open>save_long_term_memory\<close> of variant 2: the document read back, an
  empty dictionary when the file is missing, blank or does not parse.
\<close>

definition read_data2 :: "(string \<Rightarrow> json_doc option) \<Rightarrow> string option \<Rightarrow> json_doc" where
  "read_data2 loads file =
     (case file of
        None \<Rightarrow> Dict []
      | Some text \<Rightarrow>
          (let content = strip text in
           if content \<noteq> [] then (case loads content of None \<Rightarrow> Dict [] | Some data \<Rightarrow> data)
           else Dict []))"

definition save_long_term_memory2 ::
  "(string \<Rightarrow> json_doc option) \<Rightarrow> (json_doc \<Rightarrow> string) \<Rightarrow> string option \<Rightarrow> string \<Rightarrow> memory \<Rightarrow>
   string option \<times> exn option" where
  "save_long_term_memory2 loads dumps file user_id memory_data =
     store_entry dumps file (read_data2 loads file) user_id memory_data"

text \<open>Variant 1: \<open>json.load(f)\<close> with no handler; a parse failure propagates.\<close>

definition load_long_term_memory1 ::
  "(string \<Rightarrow> json_doc option) \<Rightarrow> string option \<Rightarrow> string \<Rightarrow> exn + memory" where
  "load_long_term_memory1 loads file user_id =
     (case file of
        None \<Rightarrow> Inr empty_memory
      | Some text \<Rightarrow>
          (case loads text of
             None \<Rightarrow> Inl JSONDecodeError
           | Some NonDict \<Rightarrow> Inl AttributeError
           | Some (Dict data) \<Rightarrow> Inr (dict_get data user_id empty_memory)))"

definition read_data1 :: "(string \<Rightarrow> json_doc option) \<Rightarrow> string option \<Rightarrow> exn + json_doc" where
  "read_data1 loads file =
     (case file of
        None \<Rightarrow> Inr (Dict [])
      | Some text \<Rightarrow> (case loads text of None \<Rightarrow> Inl JSONDecodeError | Some data \<Rightarrow> Inr data))"

definition save_long_term_memory1 ::
  "(string \<Rightarrow> json_doc option) \<Rightarrow> (json_doc \<Rightarrow> string) \<Rightarrow> string option \<Rightarrow> string \<Rightarrow> memory \<Rightarrow>
   string option \<times> exn option" where
  "save_long_term_memory1 loads dumps file user_id memory_data =
     (case read_data1 loads file of
        Inl e \<Rightarrow> (file, Some e)
      | Inr data \<Rightarrow> store_entry dumps file data user_id memory_data)"

text \<open>
  What the code relies on of the JSON library, for one document: the text written for it
  is not blank and parses back to it (variant 2 strips the text before parsing it,
  variant 1 does not).
\<close>

definition round_trip2 :: "(string \<Rightarrow> json_doc option) \<Rightarrow> (json_doc \<Rightarrow> string) \<Rightarrow> json_doc \<Rightarrow> bool" where
  "round_trip2 loads dumps doc =
     (strip (dumps doc) \<noteq> [] \<and> loads (strip (dumps doc)) = Some doc)"

definition round_trip1 :: "(string \<Rightarrow> json_doc option) \<Rightarrow> (json_doc \<Rightarrow> string) \<Rightarrow> json_doc \<Rightarrow> bool" where
  "round_trip1 loads dumps doc = (loads (dumps doc) = Some doc)"


subsection \<open>SQLite backend (variant 3)\<close>

text \<open>
  The table \<open>Users\<close> holds \<open>(user_id, created_at)\<close> with \<open>user_id\<close> as primary key. The
  table \<open>Memory\<close> holds the rows below, in the order of their \<open>id\<close>, which is the order
  a \<open>SELECT\<close> with no \<open>ORDER BY\<close> scans them in. \<open>id\<close> is the only key of \<open>Memory\<close>
  and is \<open>AUTOINCREMENT\<close>: a new row gets one more than the largest id ever used.
  The clock (\<open>datetime.now().isoformat()\<close>) is the parameter \<open>now\<close>.
\<close>

record memory_row =
  row_id :: nat
  row_user_id :: string
  data_type :: string
  row_key :: string
  row_value :: string
  row_timestamp :: string

record database =
  users :: "(string \<times> string) list"
  memory_rows :: "memory_row list"
  memory_seq :: nat

definition next_row_id :: "database \<Rightarrow> nat" where
  "next_row_id db = Suc (fold max (map row_id (memory_rows db)) (memory_seq db))"

text \<open>\<open>INSERT OR IGNORE INTO Users\<close>.\<close>

definition ensure_user :: "database \<Rightarrow> string \<Rightarrow> string \<Rightarrow> database" where
  "ensure_user db user_id now =
     (if user_id \<in> set (map fst (users db)) then db
      else db\<lparr>users := users db @ [(user_id, now)]\<rparr>)"

text \<open>\<open>INSERT INTO Memory (user_id, data_type, key, value, timestamp)\<close>.\<close>

definition insert_memory ::
  "database \<Rightarrow> string \<Rightarrow> string \<Rightarrow> string \<Rightarrow> string \<Rightarrow> string \<Rightarrow> database" where
  "insert_memory db user_id dt k v now =
     (let i = next_row_id db in
      db\<lparr>memory_rows := memory_rows db @
           [\<lparr>row_id = i, row_user_id = user_id, data_type = dt, row_key = k, row_value = v,
             row_timestamp = now\<rparr>],
         memory_seq := i\<rparr>)"

text \<open>
  \<open>INSERT OR REPLACE INTO Memory (user_id, data_type, key, value, timestamp)\<close>: rows in
  conflict with the new one on a key of the table are deleted first; the only key is
  \<open>id\<close>.
\<close>

definition insert_or_replace_memory ::
  "database \<Rightarrow> string \<Rightarrow> string \<Rightarrow> string \<Rightarrow> string \<Rightarrow> string \<Rightarrow> database" where
  "insert_or_replace_memory db user_id dt k v now =
     (let i = next_row_id db in
      db\<lparr>memory_rows := filter (\<lambda>r. row_id r \<noteq> i) (memory_rows db) @
           [\<lparr>row_id = i, row_user_id = user_id, data_type = dt, row_key = k, row_value = v,
             row_timestamp = now\<rparr>],
         memory_seq := i\<rparr>)"

text \<open>Decimal digits of a number, for \<open>f"interaction_{len(...)}"\<close>.\<close>

function str_of_nat :: "nat \<Rightarrow> string" where
  "str_of_nat n =
     (if n < 10 then [''0123456789'' ! n]
      else str_of_nat (n div 10) @ [''0123456789'' ! (n mod 10)])"
  by pat_completeness auto
termination
  by (relation "measure id") auto

declare str_of_nat.simps [simp del]

text \<open>The loop over the preferences of \<open>save_long_term_memory\<close>.\<close>

fun save_preferences :: "database \<Rightarrow> string \<Rightarrow> string \<Rightarrow> prefs \<Rightarrow> database" where
  "save_preferences db user_id now [] = db"
| "save_preferences db user_id now ((k, v) # items) =
     save_preferences (insert_or_replace_memory db user_id ''preference'' k v now)
       user_id now items"

text \<open>
  The \<open>SELECT id FROM Memory WHERE user_id = ? AND data_type = ? AND value = ?\<close> of the loop
  over the history finds a row or not.
\<close>

definition history_row_exists :: "database \<Rightarrow> string \<Rightarrow> string \<Rightarrow> bool" where
  "history_row_exists db user_id serialized_entry =
     (\<exists>r \<in> set (memory_rows db).
        row_user_id r = user_id \<and> data_type r = ''history'' \<and> row_value r = serialized_entry)"

text \<open>
  The loop over the history; \<open>label\<close> is the key of the rows it inserts, the same for
  all of them, and \<open>dumps\<close> is \<open>json.dumps\<close> on an entry.
\<close>

fun save_history ::
  "(interaction \<Rightarrow> string) \<Rightarrow> database \<Rightarrow> string \<Rightarrow> string \<Rightarrow> string \<Rightarrow> interaction list \<Rightarrow>
   database" where
  "save_history dumps db user_id now label [] = db"
| "save_history dumps db user_id now label (entry # entries) =
     (let serialized_entry = dumps entry in
      if \<not> history_row_exists db user_id serialized_entry
      then save_history dumps (insert_memory db user_id ''history'' label serialized_entry now)
             user_id now label entries
      else save_history dumps db user_id now label entries)"

definition save_long_term_memory3 ::
  "(interaction \<Rightarrow> string) \<Rightarrow> string \<Rightarrow> database \<Rightarrow> string \<Rightarrow> memory \<Rightarrow> database" where
  "save_long_term_memory3 dumps now db user_id memory_data =
     (let db1 = ensure_user db user_id now;
          db2 = save_preferences db1 user_id now (preferences memory_data)
      in save_history dumps db2 user_id now
           (''interaction_'' @ str_of_nat (length (history memory_data)))
           (history memory_data))"

text \<open>
  The loop over the selected rows of \<open>load_long_term_memory\<close>; \<open>loads\<close> is \<open>json.loads\<close>
  on the value of a history row, \<open>None\<close> for a \<open>JSONDecodeError\<close>, and the entries it
  returns are taken to have the shape \<open>save_long_term_memory\<close> writes.
\<close>

fun load_rows :: "(string \<Rightarrow> interaction option) \<Rightarrow> memory \<Rightarrow> memory_row list \<Rightarrow> memory" where
  "load_rows loads m [] = m"
| "load_rows loads m (r # rows) =
     (if data_type r = ''preference''
      then load_rows loads (m\<lparr>preferences := dict_set (preferences m) (row_key r) (row_value r)\<rparr>) rows
      else if data_type r = ''history''
      then (case loads (row_value r) of
              Some entry \<Rightarrow> load_rows loads (m\<lparr>history := history m @ [entry]\<rparr>) rows
            | None \<Rightarrow> load_rows loads m rows)
      else load_rows loads m rows)"

definition load_long_term_memory3 ::
  "(string \<Rightarrow> interaction option) \<Rightarrow> string \<Rightarrow> database \<Rightarrow> string \<Rightarrow> database \<times> memory" where
  "load_long_term_memory3 loads now db user_id =
     (let db1 = ensure_user db user_id now;
          rows = filter (\<lambda>r. row_user_id r = user_id) (memory_rows db1)
      in (db1, load_rows loads empty_memory rows))"

text \<open>The rows of the history of a user, in the order of the table.\<close>

definition history_rows :: "database \<Rightarrow> string \<Rightarrow> memory_row list" where
  "history_rows db user_id =
     filter (\<lambda>r. row_user_id r = user_id \<and> data_type r = ''history'') (memory_rows db)"


section \<open>The retry loop of the gateway\<close>

lemma retry_loop_settles:
  "\<forall>j<k. is_transient (runnable (a + j)) \<Longrightarrow> k < n \<Longrightarrow> \<not> is_transient (runnable (a + k)) \<Longrightarrow>
   retry_loop runnable a n sl =
     \<lparr>result = (case runnable (a + k) of Reply r \<Rightarrow> Inr r | Failure d \<Rightarrow> Inl (Exn d)),
      calls = a + k + 1, sleeps = sl @ map (\<lambda>j. 2 ^ (a + j)) [0..<k]\<rparr>"
proof (induction k arbitrary: a n sl)
  case 0
  then obtain m where n: "n = Suc m" by (cases n) auto
  from 0 show ?case
    by (auto simp: n is_transient_def split: outcome.splits)
next
  case (Suc k)
  then obtain m where n: "n = Suc m" by (cases n) auto
  from Suc.prems(1) have t0: "is_transient (runnable a)" by (metis add.right_neutral zero_less_Suc)
  then obtain d where d: "runnable a = Failure d" "rate_limited d"
    by (auto simp: is_transient_def split: outcome.splits)
  have step: "retry_loop runnable a n sl = retry_loop runnable (Suc a) m (sl @ [2 ^ a])"
    by (simp add: n d)
  have "\<forall>j<k. is_transient (runnable (Suc a + j))"
    using Suc.prems(1) by (metis Suc_less_eq add_Suc_shift)
  moreover have "k < m" using Suc.prems(2) n by simp
  moreover have "\<not> is_transient (runnable (Suc a + k))" using Suc.prems(3) by simp
  ultimately have "retry_loop runnable (Suc a) m (sl @ [2 ^ a]) =
     \<lparr>result = (case runnable (Suc a + k) of Reply r \<Rightarrow> Inr r | Failure d \<Rightarrow> Inl (Exn d)),
      calls = Suc a + k + 1, sleeps = (sl @ [2 ^ a]) @ map (\<lambda>j. 2 ^ (Suc a + j)) [0..<k]\<rparr>"
    by (rule Suc.IH)
  then show ?case unfolding step by (simp add: map_upt_Suc del: upt_Suc)
qed

lemma retry_loop_exhausted:
  "\<forall>j<n. is_transient (runnable (a + j)) \<Longrightarrow>
   retry_loop runnable a n sl =
     \<lparr>result = Inl (Exn ''Max retries exceeded''), calls = a + n,
      sleeps = sl @ map (\<lambda>j. 2 ^ (a + j)) [0..<n]\<rparr>"
proof (induction n arbitrary: a sl)
  case 0
  then show ?case by simp
next
  case (Suc n)
  from Suc.prems have t0: "is_transient (runnable a)" by (metis add.right_neutral zero_less_Suc)
  then obtain d where d: "runnable a = Failure d" "rate_limited d"
    by (auto simp: is_transient_def split: outcome.splits)
  have "\<forall>j<n. is_transient (runnable (Suc a + j))"
    using Suc.prems by (metis Suc_less_eq add_Suc_shift)
  then have "retry_loop runnable (Suc a) n (sl @ [2 ^ a]) =
     \<lparr>result = Inl (Exn ''Max retries exceeded''), calls = Suc a + n,
      sleeps = (sl @ [2 ^ a]) @ map (\<lambda>j. 2 ^ (Suc a + j)) [0..<n]\<rparr>"
    by (rule Suc.IH)
  then show ?case by (simp add: d map_upt_Suc del: upt_Suc)
qed


text \<open>The equations that evaluate the case mappings on a literal.\<close>

lemmas text_eval = lower_def lower_char_def upper_char_def ascii_upper_def ascii_lower_def

text \<open>
  Claim C1. With the default budget of three attempts, the gateway retries exactly the
  failures whose description contains \<open>rate_limit\<close> in any letter case, and sleeps
  \<open>2 ^ j\<close> after the failed attempt \<open>j\<close>. If attempt \<open>k < 3\<close> is the first that is not such
  a failure, exactly \<open>k + 1\<close> invocations are made and its outcome is the outcome of the
  gateway: its reply is returned, its exception is raised as it is. In particular two
  transient failures followed by a reply make three invocations and return the reply, and
  a first failure that is not transient makes one invocation. If all three attempts fail
  transiently the gateway raises \<open>Max retries exceeded\<close>.
\<close>

theorem gateway_retry_policy:
  "(k < 3 \<and> (\<forall>j<k. is_transient (runnable j)) \<and> \<not> is_transient (runnable k) \<longrightarrow>
      generate runnable =
        \<lparr>result = (case runnable k of Reply r \<Rightarrow> Inr r | Failure d \<Rightarrow> Inl (Exn d)),
         calls = Suc k, sleeps = map (\<lambda>j. 2 ^ j) [0..<k]\<rparr>) \<and>
   ((\<forall>j<3. is_transient (runnable j)) \<longrightarrow>
      generate runnable =
        \<lparr>result = Inl (Exn ''Max retries exceeded''), calls = 3, sleeps = [1, 2, 4]\<rparr>)"
proof (intro conjI impI)
  assume "k < 3 \<and> (\<forall>j<k. is_transient (runnable j)) \<and> \<not> is_transient (runnable k)"
  then have "retry_loop runnable 0 3 [] =
     \<lparr>result = (case runnable (0 + k) of Reply r \<Rightarrow> Inr r | Failure d \<Rightarrow> Inl (Exn d)),
      calls = 0 + k + 1, sleeps = [] @ map (\<lambda>j. 2 ^ (0 + j)) [0..<k]\<rparr>"
    by (intro retry_loop_settles) simp_all
  then show "generate runnable =
        \<lparr>result = (case runnable k of Reply r \<Rightarrow> Inr r | Failure d \<Rightarrow> Inl (Exn d)),
         calls = Suc k, sleeps = map (\<lambda>j. 2 ^ j) [0..<k]\<rparr>"
    by (simp add: generate_def call_llm_with_retry_def)
next
  assume "\<forall>j<3. is_transient (runnable j)"
  then have "retry_loop runnable 0 3 [] =
     \<lparr>result = Inl (Exn ''Max retries exceeded''), calls = 0 + 3,
      sleeps = [] @ map (\<lambda>j. 2 ^ (0 + j)) [0..<3]\<rparr>"
    by (intro retry_loop_exhausted) simp
  then show "generate runnable =
        \<lparr>result = Inl (Exn ''Max retries exceeded''), calls = 3, sleeps = [1, 2, 4]\<rparr>"
    by (simp add: generate_def call_llm_with_retry_def upt_rec numeral_3_eq_3)
qed

theorem gateway_retry_policy_witness:
  "generate (\<lambda>n. if n < 2 then Failure ''429 Rate_Limit reached'' else Reply ''Welcome'') =
     \<lparr>result = Inr ''Welcome'', calls = 3, sleeps = [1, 2]\<rparr> \<and>
   generate (\<lambda>n. Failure ''connection refused'') =
     \<lparr>result = Inl (Exn ''connection refused''), calls = 1, sleeps = []\<rparr> \<and>
   generate (\<lambda>n. Failure ''RATE_LIMIT'') =
     \<lparr>result = Inl (Exn ''Max retries exceeded''), calls = 3, sleeps = [1, 2, 4]\<rparr>"
proof -
  have t: "rate_limited ''429 Rate_Limit reached''" "\<not> rate_limited ''connection refused''"
    "rate_limited ''RATE_LIMIT''"
    by (simp_all add: rate_limited_def text_eval)
  show ?thesis
    using gateway_retry_policy [of 2 "\<lambda>n. if n < 2 then Failure ''429 Rate_Limit reached'' else Reply ''Welcome''"]
      gateway_retry_policy [of 0 "\<lambda>n. Failure ''connection refused''"]
      gateway_retry_policy [of 0 "\<lambda>n. Failure ''RATE_LIMIT''"] t
    by (simp add: is_transient_def upt_rec)
qed

section \<open>Substrings and replacement\<close>

lemma str_in_iff: "str_in sub s \<longleftrightarrow> (\<exists>a b. s = a @ sub @ b)"
proof (induction s)
  case Nil
  then show ?case by auto
next
  case (Cons c cs)
  show ?case
  proof
    assume "str_in sub (c # cs)"
    then consider "prefix sub (c # cs)" | "str_in sub cs" by auto
    then show "\<exists>a b. c # cs = a @ sub @ b"
    proof cases
      case 1
      then obtain b where "c # cs = sub @ b" by (auto simp: prefix_def)
      then have "c # cs = [] @ sub @ b" by simp
      then show ?thesis by blast
    next
      case 2
      with Cons.IH obtain a b where "cs = a @ sub @ b" by blast
      then have "c # cs = (c # a) @ sub @ b" by simp
      then show ?thesis by blast
    qed
  next
    assume "\<exists>a b. c # cs = a @ sub @ b"
    then obtain a b where ab: "c # cs = a @ sub @ b" by blast
    show "str_in sub (c # cs)"
    proof (cases a)
      case Nil
      with ab have "prefix sub (c # cs)" by (simp add: prefix_def)
      then show ?thesis by simp
    next
      case (Cons x a')
      with ab have "cs = a' @ sub @ b" by simp
      with Cons.IH have "str_in sub cs" by blast
      then show ?thesis by simp
    qed
  qed
qed

lemma str_in_lower: "str_in a b \<Longrightarrow> str_in (lower a) (lower b)"
  unfolding str_in_iff lower_def by (metis map_append)

lemma str_in_append: "str_in sub s \<Longrightarrow> str_in sub (a @ s @ b)"
  unfolding str_in_iff by (metis append.assoc)

lemma str_replace_same_aux: "new = old \<Longrightarrow> old \<noteq> [] \<Longrightarrow> str_replace s old new = s"
proof (induction s old new rule: str_replace.induct)
  case (1 s old new)
  show ?case
  proof (cases "s = []")
    case True
    then show ?thesis using "1.prems" by (simp add: str_replace.simps)
  next
    case False
    show ?thesis
    proof (cases "prefix old s")
      case True
      then obtain b where b: "s = old @ b" by (auto simp: prefix_def)
      have "str_replace s old new = new @ str_replace (drop (length old) s) old new"
        using "1.prems" False True by (subst str_replace.simps) simp
      also have "str_replace (drop (length old) s) old new = drop (length old) s"
        using "1.IH"(1) "1.prems" False True by simp
      finally show ?thesis using b "1.prems" by simp
    next
      case np: False
      have "str_replace s old new = hd s # str_replace (tl s) old new"
        using "1.prems" False np by (subst str_replace.simps) simp
      also have "str_replace (tl s) old new = tl s"
        using "1.IH"(2) "1.prems" False np by simp
      finally show ?thesis using False by simp
    qed
  qed
qed

lemma str_replace_same: "old \<noteq> [] \<Longrightarrow> str_replace s old old = s"
  by (rule str_replace_same_aux) simp_all

lemma str_in_replace:
  "old \<noteq> [] \<Longrightarrow> str_in old s \<Longrightarrow> str_in new (str_replace s old new)"
proof (induction s old new rule: str_replace.induct)
  case (1 s old new)
  from "1.prems" have ne: "s \<noteq> []" by (cases s) auto
  show ?case
  proof (cases "prefix old s")
    case True
    have "str_replace s old new = new @ str_replace (drop (length old) s) old new"
      using "1.prems" ne True by (subst str_replace.simps) simp
    then show ?thesis using str_in_append [of new new "[]"] by (simp add: str_in_iff) blast
  next
    case False
    have eq: "str_replace s old new = hd s # str_replace (tl s) old new"
      using "1.prems" ne False by (subst str_replace.simps) simp
    from ne obtain c cs where s: "s = c # cs" by (cases s) auto
    with "1.prems" False have "str_in old (tl s)" by simp
    with "1.IH"(2) "1.prems" ne False have "str_in new (str_replace (tl s) old new)" by simp
    then show ?thesis unfolding eq by simp
  qed
qed

lemma parse_room_loop_first:
  "i < length rooms \<Longrightarrow> str_in (rooms ! i) hl \<Longrightarrow> \<forall>j<i. \<not> str_in (rooms ! j) hl \<Longrightarrow>
   parse_room_loop rooms hl = capitalize (rooms ! i)"
proof (induction rooms arbitrary: i)
  case Nil
  then show ?case by simp
next
  case (Cons room rooms)
  show ?case
  proof (cases i)
    case 0
    with Cons.prems show ?thesis by simp
  next
    case (Suc i')
    with Cons.prems have "\<not> str_in room hl" by auto
    moreover have "parse_room_loop rooms hl = capitalize (rooms ! i')"
      using Cons.prems Suc by (intro Cons.IH) auto
    ultimately show ?thesis using Suc by simp
  qed
qed

lemma parse_room_loop_none:
  "\<forall>r \<in> set rooms. \<not> str_in r hl \<Longrightarrow> parse_room_loop rooms hl = ''Not Specified''"
  by (induction rooms) auto


section \<open>The room-type fallback\<close>

lemma capitalize_room_types:
  "map capitalize room_types = [''King bed'', ''Double bed'', ''Queen bed'', ''Suite'', ''Single bed'']"
  by (simp add: room_types_def text_eval)

text \<open>
  The example of the specification does not hold as it is written: \<open>capitalize\<close> puts
  only the first letter of the phrase in upper case, so the rewritten summary reads
  \<open>Room Type: Queen bed\<close>, and \<open>Room Type: Queen Bed\<close> does not occur in it.
\<close>

theorem room_type_fallback_counterexample:
  "apply_fallback ''human: I'd like a queen bed please''
     ''Name: Not Provided, Location: Not Specified, Room Type: Not Specified, Other: None'' =
     ''Name: Not Provided, Location: Not Specified, Room Type: Queen bed, Other: None'' \<and>
   \<not> str_in ''Room Type: Queen Bed''
     (apply_fallback ''human: I'd like a queen bed please''
        ''Name: Not Provided, Location: Not Specified, Room Type: Not Specified, Other: None'')"
proof -
  have p: "parse_room_type ''human: I'd like a queen bed please'' = ''Queen bed''"
    by (simp add: parse_room_type_def room_types_def text_eval)
  have a: "apply_fallback ''human: I'd like a queen bed please''
     ''Name: Not Provided, Location: Not Specified, Room Type: Not Specified, Other: None'' =
     ''Name: Not Provided, Location: Not Specified, Room Type: Queen bed, Other: None''"
    unfolding apply_fallback_def p by (simp add: sentinel_def str_replace.simps)
  show ?thesis unfolding a by simp
qed

text \<open>
  Claim C2, amended. For a summary that contains \<open>Room Type: Not Specified\<close>: the
  phrases are looked for in the lower-cased history in the order king bed, double bed,
  queen bed, suite, single bed; every occurrence of the sentinel is replaced by
  \<open>Room Type:\<close> and the first phrase found, with its first letter in upper case and the
  rest in lower case (King bed, Double bed, Queen bed, Suite, Single bed), and the
  rewritten summary contains that text. If no phrase is found the summary is unchanged.
  In particular, when the history contains \<open>I'd like a queen bed please\<close> and neither
  \<open>king bed\<close> nor \<open>double bed\<close> in any letter case, the rewritten summary contains
  \<open>Room Type: Queen bed\<close>.
\<close>

theorem room_type_fallback:
  assumes s: "str_in sentinel s"
  shows "map capitalize room_types =
           [''King bed'', ''Double bed'', ''Queen bed'', ''Suite'', ''Single bed''] \<and>
         (i < length room_types \<and> str_in (room_types ! i) (lower h) \<and>
            (\<forall>j<i. \<not> str_in (room_types ! j) (lower h)) \<longrightarrow>
          apply_fallback h s =
            str_replace s sentinel (''Room Type: '' @ capitalize (room_types ! i)) \<and>
          str_in (''Room Type: '' @ capitalize (room_types ! i)) (apply_fallback h s)) \<and>
         ((\<forall>r \<in> set room_types. \<not> str_in r (lower h)) \<longrightarrow> apply_fallback h s = s) \<and>
         (str_in ''I'd like a queen bed please'' h \<and> \<not> str_in ''king bed'' (lower h) \<and>
            \<not> str_in ''double bed'' (lower h) \<longrightarrow>
          str_in ''Room Type: Queen bed'' (apply_fallback h s))"
proof -
  have ne: "sentinel \<noteq> []" by (simp add: sentinel_def)
  have first: "apply_fallback h s =
            str_replace s sentinel (''Room Type: '' @ capitalize (room_types ! i)) \<and>
          str_in (''Room Type: '' @ capitalize (room_types ! i)) (apply_fallback h s)"
    if "i < length room_types" "str_in (room_types ! i) (lower h)"
      "\<forall>j<i. \<not> str_in (room_types ! j) (lower h)" for i
  proof -
    from that have "parse_room_type h = capitalize (room_types ! i)"
      unfolding parse_room_type_def by (rule parse_room_loop_first)
    then have eq: "apply_fallback h s =
        str_replace s sentinel (''Room Type: '' @ capitalize (room_types ! i))"
      using s by (simp add: apply_fallback_def)
    show ?thesis unfolding eq using str_in_replace [OF ne s] by simp
  qed
  have none: "apply_fallback h s = s" if "\<forall>r \<in> set room_types. \<not> str_in r (lower h)"
  proof -
    from that have "parse_room_type h = ''Not Specified''"
      unfolding parse_room_type_def by (rule parse_room_loop_none)
    then have "apply_fallback h s = str_replace s sentinel sentinel"
      using s by (simp add: apply_fallback_def sentinel_def)
    then show ?thesis using str_replace_same [OF ne] by simp
  qed
  have queen: "str_in ''Room Type: Queen bed'' (apply_fallback h s)"
    if q: "str_in ''I'd like a queen bed please'' h" and k: "\<not> str_in ''king bed'' (lower h)"
      and d: "\<not> str_in ''double bed'' (lower h)"
  proof -
    have "str_in ''queen bed'' ''i'd like a queen bed please''" by simp
    then have "str_in ''queen bed'' (lower ''I'd like a queen bed please'')"
      by (simp add: text_eval)
    moreover from q have "str_in (lower ''I'd like a queen bed please'') (lower h)"
      by (rule str_in_lower)
    ultimately have qb: "str_in ''queen bed'' (lower h)"
      unfolding str_in_iff by (metis append.assoc)
    have l: "2 < length room_types" by (simp add: room_types_def)
    have qb': "str_in (room_types ! 2) (lower h)" using qb by (simp add: room_types_def)
    have pre: "\<forall>j<2. \<not> str_in (room_types ! j) (lower h)"
      using k d by (simp add: room_types_def less_Suc_eq numeral_2_eq_2)
    have c2: "''Room Type: '' @ capitalize (room_types ! 2) = ''Room Type: Queen bed''"
      by (simp add: room_types_def text_eval)
    from first [OF l qb' pre] show ?thesis unfolding c2 by blast
  qed
  show ?thesis using first [of i] none queen capitalize_room_types by blast
qed

theorem room_type_fallback_witness:
  "str_in sentinel ''Name: John, Location: Paris, Room Type: Not Specified, Other: Pool'' \<and>
   str_in ''Room Type: Queen bed''
     (apply_fallback ''human: I'd like a queen bed please''
        ''Name: John, Location: Paris, Room Type: Not Specified, Other: Pool'') \<and>
   apply_fallback ''human: any room will do''
     ''Name: John, Location: Paris, Room Type: Not Specified, Other: Pool'' =
     ''Name: John, Location: Paris, Room Type: Not Specified, Other: Pool''"
proof -
  have s: "str_in sentinel ''Name: John, Location: Paris, Room Type: Not Specified, Other: Pool''"
    by (simp add: sentinel_def)
  have q: "str_in ''I'd like a queen bed please'' ''human: I'd like a queen bed please''"
    by simp
  have n: "\<not> str_in ''king bed'' (lower ''human: I'd like a queen bed please'')"
    "\<not> str_in ''double bed'' (lower ''human: I'd like a queen bed please'')"
    by (simp_all add: text_eval)
  have m: "\<forall>r \<in> set room_types. \<not> str_in r (lower ''human: any room will do'')"
    by (simp add: room_types_def text_eval)
  show ?thesis
    using room_type_fallback [OF s, of 2 "''human: I'd like a queen bed please''"]
      room_type_fallback [OF s, of 0 "''human: any room will do''"] s q n m
    by blast
qed

section \<open>One turn of the summarising variant\<close>



lemma history_of_created:
  "snd (get_session_history (fst (get_session_history st_store u)) sid) =
   snd (get_session_history st_store sid)"
  by (auto simp: get_session_history_def split: option.splits)

lemma generate_settles:
  assumes "k < 3" "\<forall>j<k. is_transient (chain j)" "\<not> is_transient (chain k)"
  shows "generate chain =
     \<lparr>result = (case chain k of Reply r \<Rightarrow> Inr r | Failure d \<Rightarrow> Inl (Exn d)),
      calls = Suc k, sleeps = map (\<lambda>j. 2 ^ j) [0..<k]\<rparr>"
proof -
  have "retry_loop chain 0 3 [] =
     \<lparr>result = (case chain (0 + k) of Reply r \<Rightarrow> Inr r | Failure d \<Rightarrow> Inl (Exn d)),
      calls = 0 + k + 1, sleeps = [] @ map (\<lambda>j. 2 ^ (0 + j)) [0..<k]\<rparr>"
    using assms by (intro retry_loop_settles) simp_all
  then show ?thesis by (simp add: generate_def call_llm_with_retry_def)
qed

lemma app_turn_gateway_failure:
  assumes "result (generate chain) = Inl e"
  shows "app_turn chain summary_llm user_id user_name input st =
     \<lparr>raised = Some e,
      state_after = st\<lparr>ui_messages := ui_messages st @ [(''user'', input)],
                       store := fst (get_session_history (store st) user_id)\<rparr>,
      chain_calls = calls (generate chain), summary_calls = 0\<rparr>"
  using assms by (simp add: app_turn_def Let_def split: prod.splits)


text \<open>
  Claim C8. When the reply chain fails with a failure that is not transient, at the first
  attempt or after transient ones, the turn raises that exception as it is and the chain
  is not invoked again. The summary model is not invoked, no assistant message is added
  to the conversation log (it holds the user's message, which was added before the call),
  the history of every session is the one before the turn, and the profile table and the
  preferences kept in the session are unchanged.
\<close>

theorem gateway_failure_writes_nothing:
  assumes "k < 3" and "\<forall>j<k. is_transient (chain j)" and "chain k = Failure d"
    and "\<not> rate_limited d"
  shows "raised (app_turn chain summary_llm user_id user_name input st) = Some (Exn d) \<and>
    chain_calls (app_turn chain summary_llm user_id user_name input st) = Suc k \<and>
    summary_calls (app_turn chain summary_llm user_id user_name input st) = 0 \<and>
    ui_messages (state_after (app_turn chain summary_llm user_id user_name input st)) =
      ui_messages st @ [(''user'', input)] \<and>
    (\<forall>sid. history_of (state_after (app_turn chain summary_llm user_id user_name input st)) sid =
      history_of st sid) \<and>
    user_profiles (state_after (app_turn chain summary_llm user_id user_name input st)) =
      user_profiles st \<and>
    session_preferences (state_after (app_turn chain summary_llm user_id user_name input st)) =
      session_preferences st"
proof -
  have nt: "\<not> is_transient (chain k)" using assms(3,4) by (simp add: is_transient_def)
  have g: "generate chain =
     \<lparr>result = Inl (Exn d), calls = Suc k, sleeps = map (\<lambda>j. 2 ^ j) [0..<k]\<rparr>"
    using generate_settles [OF assms(1,2) nt] assms(3) by simp
  then have r: "result (generate chain) = Inl (Exn d)" by simp
  show ?thesis
    unfolding app_turn_gateway_failure [OF r]
    by (simp add: g history_of_def history_of_created)
qed


theorem gateway_failure_writes_nothing_witness:
  "\<not> rate_limited ''invalid api key'' \<and>
   raised (app_turn (\<lambda>n. Failure ''invalid api key'') (\<lambda>h n. Reply ''Name: John'') ''u1'' ''John''
     ''Any suites in London?''
     \<lparr>ui_messages = [], store = Map.empty, user_profiles = [(''u1'', ''Name: John'')],
      session_preferences = ''Name: John''\<rparr>) = Some (Exn ''invalid api key'') \<and>
   user_profiles (state_after (app_turn (\<lambda>n. Failure ''invalid api key'')
     (\<lambda>h n. Reply ''Name: John'') ''u1'' ''John'' ''Any suites in London?''
     \<lparr>ui_messages = [], store = Map.empty, user_profiles = [(''u1'', ''Name: John'')],
      session_preferences = ''Name: John''\<rparr>)) = [(''u1'', ''Name: John'')]"
proof -
  have n: "\<not> rate_limited ''invalid api key''"
    by (simp add: rate_limited_def text_eval)
  show ?thesis
    using gateway_failure_writes_nothing [of 0 "\<lambda>n. Failure ''invalid api key''" "''invalid api key''"
        "\<lambda>h n. Reply ''Name: John''" "''u1''" "''John''" "''Any suites in London?''"
        "\<lparr>ui_messages = [], store = Map.empty, user_profiles = [(''u1'', ''Name: John'')],
          session_preferences = ''Name: John''\<rparr>"] n
    by simp
qed





section \<open>The flat-file store\<close>

lemma map_of_dict_set: "map_of (dict_set d k v) = (map_of d)(k \<mapsto> v)"
  by (induction d k v rule: dict_set.induct) auto

lemma dict_get_dict_set:
  "dict_get (dict_set d k v) k' dflt = (if k' = k then v else dict_get d k' dflt)"
  by (simp add: dict_get_def map_of_dict_set)

lemma load2_read_data:
  "load_long_term_memory2 loads file u =
     (case read_data2 loads file of
        NonDict \<Rightarrow> Inl AttributeError
      | Dict d \<Rightarrow> Inr (dict_get d u empty_memory))"
  by (simp add: load_long_term_memory2_def read_data2_def dict_get_def Let_def
      split: option.splits json_doc.splits)

lemma read_data2_written:
  "round_trip2 loads dumps doc \<Longrightarrow> read_data2 loads (Some (dumps doc)) = doc"
  by (simp add: read_data2_def round_trip2_def Let_def)

lemma load1_read_data:
  "load_long_term_memory1 loads file u =
     (case read_data1 loads file of
        Inl e \<Rightarrow> Inl e
      | Inr NonDict \<Rightarrow> Inl AttributeError
      | Inr (Dict d) \<Rightarrow> Inr (dict_get d u empty_memory))"
  by (simp add: load_long_term_memory1_def read_data1_def dict_get_def
      split: option.splits json_doc.splits)

lemma read_data1_written:
  "round_trip1 loads dumps doc \<Longrightarrow> read_data1 loads (Some (dumps doc)) = Inr doc"
  by (simp add: read_data1_def round_trip1_def)

lemma save2_dict:
  "read_data2 loads file = Dict d \<Longrightarrow>
   save_long_term_memory2 loads dumps file u m = (Some (dumps (Dict (dict_set d u m))), None)"
  by (simp add: save_long_term_memory2_def store_entry_def)

lemma save2_nondict:
  "read_data2 loads file = NonDict \<Longrightarrow>
   save_long_term_memory2 loads dumps file u m = (file, Some TypeError)"
  by (simp add: save_long_term_memory2_def store_entry_def)



text \<open>
  Claim C10. Saving the memory of \<open>u\<close> leaves what the store holds for another user
  \<open>v\<close> as it was, in both flat-file variants: loading \<open>v\<close> after the save gives what it
  gave before, and when the file held a dictionary the entry of \<open>v\<close> in the rewritten
  document is the entry it had. The JSON library is assumed to read back the document the
  save writes. A file that cannot be saved to (no dictionary in it, or, in variant 1, no
  JSON) is left as it is.
\<close>

theorem save_leaves_other_users:
  assumes "u \<noteq> v"
  shows "((\<forall>d. read_data2 loads file = Dict d \<longrightarrow>
            round_trip2 loads dumps (Dict (dict_set d u m))) \<longrightarrow>
          load_long_term_memory2 loads (fst (save_long_term_memory2 loads dumps file u m)) v =
            load_long_term_memory2 loads file v \<and>
          (\<forall>d. read_data2 loads file = Dict d \<longrightarrow>
            (\<exists>d'. read_data2 loads (fst (save_long_term_memory2 loads dumps file u m)) = Dict d' \<and>
                  map_of d' v = map_of d v))) \<and>
         ((\<forall>d. read_data1 loads file = Inr (Dict d) \<longrightarrow>
            round_trip1 loads dumps (Dict (dict_set d u m))) \<longrightarrow>
          load_long_term_memory1 loads (fst (save_long_term_memory1 loads dumps file u m)) v =
            load_long_term_memory1 loads file v \<and>
          (\<forall>d. read_data1 loads file = Inr (Dict d) \<longrightarrow>
            (\<exists>d'. read_data1 loads (fst (save_long_term_memory1 loads dumps file u m)) = Inr (Dict d') \<and>
                  map_of d' v = map_of d v)))"
proof (intro conjI impI)
  assume rt: "\<forall>d. read_data2 loads file = Dict d \<longrightarrow> round_trip2 loads dumps (Dict (dict_set d u m))"
  show "load_long_term_memory2 loads (fst (save_long_term_memory2 loads dumps file u m)) v =
            load_long_term_memory2 loads file v"
  proof (cases "read_data2 loads file")
    case NonDict
    then show ?thesis by (simp add: save2_nondict)
  next
    case (Dict d)
    with rt have "round_trip2 loads dumps (Dict (dict_set d u m))" by blast
    then show ?thesis
      using assms by (simp add: save2_dict [OF Dict] load2_read_data read_data2_written Dict dict_get_dict_set)
  qed
  show "\<forall>d. read_data2 loads file = Dict d \<longrightarrow>
            (\<exists>d'. read_data2 loads (fst (save_long_term_memory2 loads dumps file u m)) = Dict d' \<and>
                  map_of d' v = map_of d v)"
  proof (intro allI impI)
    fix d assume d: "read_data2 loads file = Dict d"
    with rt have "round_trip2 loads dumps (Dict (dict_set d u m))" by blast
    then have "read_data2 loads (fst (save_long_term_memory2 loads dumps file u m)) = Dict (dict_set d u m)"
      by (simp add: save2_dict [OF d] read_data2_written)
    moreover have "map_of (dict_set d u m) v = map_of d v"
      using assms by (simp add: map_of_dict_set)
    ultimately show "\<exists>d'. read_data2 loads (fst (save_long_term_memory2 loads dumps file u m)) = Dict d' \<and>
                  map_of d' v = map_of d v" by blast
  qed
next
  assume rt: "\<forall>d. read_data1 loads file = Inr (Dict d) \<longrightarrow> round_trip1 loads dumps (Dict (dict_set d u m))"
  have written: "read_data1 loads (fst (save_long_term_memory1 loads dumps file u m)) = Inr (Dict (dict_set d u m))"
    if d: "read_data1 loads file = Inr (Dict d)" for d
  proof -
    from rt d have "round_trip1 loads dumps (Dict (dict_set d u m))" by blast
    then show ?thesis
      by (simp add: save_long_term_memory1_def d store_entry_def read_data1_written)
  qed
  show "load_long_term_memory1 loads (fst (save_long_term_memory1 loads dumps file u m)) v =
            load_long_term_memory1 loads file v"
  proof (cases "read_data1 loads file")
    case (Inl e)
    then show ?thesis by (simp add: save_long_term_memory1_def)
  next
    case (Inr doc)
    show ?thesis
    proof (cases doc)
      case NonDict
      with Inr show ?thesis by (simp add: save_long_term_memory1_def store_entry_def)
    next
      case (Dict d)
      with Inr have d: "read_data1 loads file = Inr (Dict d)" by simp
      show ?thesis using assms by (simp add: load1_read_data written [OF d] d dict_get_dict_set)
    qed
  qed
  show "\<forall>d. read_data1 loads file = Inr (Dict d) \<longrightarrow>
            (\<exists>d'. read_data1 loads (fst (save_long_term_memory1 loads dumps file u m)) = Inr (Dict d') \<and>
                  map_of d' v = map_of d v)"
    using written assms by (auto simp: map_of_dict_set)
qed


theorem save_leaves_other_users_witness:
  "load_long_term_memory2
     (\<lambda>t. if t = ''{v}'' then Some (Dict [(''v'', \<lparr>preferences = [(''budget'', ''under 100'')], history = []\<rparr>)])
          else if t = ''{v,u}''
          then Some (Dict [(''v'', \<lparr>preferences = [(''budget'', ''under 100'')], history = []\<rparr>),
                           (''u'', \<lparr>preferences = [], history = []\<rparr>)])
          else None)
     (fst (save_long_term_memory2
       (\<lambda>t. if t = ''{v}'' then Some (Dict [(''v'', \<lparr>preferences = [(''budget'', ''under 100'')], history = []\<rparr>)])
          else if t = ''{v,u}''
          then Some (Dict [(''v'', \<lparr>preferences = [(''budget'', ''under 100'')], history = []\<rparr>),
                           (''u'', \<lparr>preferences = [], history = []\<rparr>)])
          else None)
       (\<lambda>doc. ''{v,u}'') (Some ''{v}'') ''u'' \<lparr>preferences = [], history = []\<rparr>)) ''v'' =
   Inr \<lparr>preferences = [(''budget'', ''under 100'')], history = []\<rparr>"
proof -
  let ?mv = "\<lparr>preferences = [(''budget'', ''under 100'')], history = []\<rparr>"
  let ?mu = "\<lparr>preferences = [], history = []\<rparr>"
  let ?loads = "\<lambda>t. if t = ''{v}'' then Some (Dict [(''v'', ?mv)])
          else if t = ''{v,u}'' then Some (Dict [(''v'', ?mv), (''u'', ?mu)]) else None"
  let ?dumps = "\<lambda>doc :: json_doc. ''{v,u}''"
  have s: "strip ''{v}'' = ''{v}''" "strip ''{v,u}'' = ''{v,u}''"
    by (simp_all add: strip_def whitespace_def)
  have rd: "read_data2 ?loads (Some ''{v}'') = Dict [(''v'', ?mv)]"
    by (simp add: read_data2_def s)
  have rt: "\<forall>d. read_data2 ?loads (Some ''{v}'') = Dict d \<longrightarrow>
      round_trip2 ?loads ?dumps (Dict (dict_set d ''u'' ?mu))"
    unfolding rd by (simp add: round_trip2_def s)
  have l: "load_long_term_memory2 ?loads (Some ''{v}'') ''v'' = Inr ?mv"
    by (simp add: load2_read_data rd dict_get_def)
  have uv: "''u'' \<noteq> ''v''" by simp
  show ?thesis
    using save_leaves_other_users [OF uv, of ?loads "Some ''{v}''" ?dumps ?mu] rt l
    by simp
qed







section \<open>The SQLite store\<close>

lemma fold_max_ge: "(a::nat) \<le> fold max xs a"
proof (induction xs arbitrary: a)
  case Nil
  then show ?case by simp
next
  case (Cons x xs)
  have "a \<le> max x a" by simp
  also have "max x a \<le> fold max xs (max x a)" by (rule Cons.IH)
  finally show ?case by simp
qed

lemma fold_max_mem: "x \<in> set xs \<Longrightarrow> (x::nat) \<le> fold max xs a"
proof (induction xs arbitrary: a)
  case Nil
  then show ?case by simp
next
  case (Cons y ys)
  show ?case
  proof (cases "x = y")
    case True
    have "x \<le> max y a" using True by simp
    also have "max y a \<le> fold max ys (max y a)" by (rule fold_max_ge)
    finally show ?thesis by simp
  next
    case False
    with Cons.prems have "x \<in> set ys" by simp
    then show ?thesis using Cons.IH by simp
  qed
qed

lemma row_id_fresh: "r \<in> set (memory_rows db) \<Longrightarrow> row_id r < next_row_id db"
  unfolding next_row_id_def using fold_max_mem [of "row_id r" "map row_id (memory_rows db)"]
  by (simp add: less_Suc_eq_le)

lemma no_conflict: "filter (\<lambda>r. row_id r \<noteq> next_row_id db) (memory_rows db) = memory_rows db"
proof -
  have "row_id r \<noteq> next_row_id db" if "r \<in> set (memory_rows db)" for r
    using row_id_fresh [OF that] by simp
  then show ?thesis by (simp add: filter_id_conv)
qed

lemma rows_insert_or_replace:
  "memory_rows (insert_or_replace_memory db u dt k v now) =
     memory_rows db @
       [\<lparr>row_id = next_row_id db, row_user_id = u, data_type = dt, row_key = k, row_value = v,
         row_timestamp = now\<rparr>]"
  by (simp add: insert_or_replace_memory_def Let_def no_conflict)

lemma rows_insert:
  "memory_rows (insert_memory db u dt k v now) =
     memory_rows db @
       [\<lparr>row_id = next_row_id db, row_user_id = u, data_type = dt, row_key = k, row_value = v,
         row_timestamp = now\<rparr>]"
  by (simp add: insert_memory_def Let_def)

lemma rows_ensure_user: "memory_rows (ensure_user db u now) = memory_rows db"
  by (simp add: ensure_user_def)

lemma rows_save_preferences:
  "\<exists>P. memory_rows (save_preferences db u now ps) = memory_rows db @ P \<and>
       (\<forall>r \<in> set P. row_user_id r = u \<and> data_type r = ''preference'') \<and>
       map (\<lambda>r. (row_key r, row_value r)) P = ps"
proof (induction db u now ps rule: save_preferences.induct)
  case (1 db u now)
  then show ?case by simp
next
  case (2 db u now k v items)
  let ?r = "\<lparr>row_id = next_row_id db, row_user_id = u, data_type = ''preference'', row_key = k,
      row_value = v, row_timestamp = now\<rparr>"
  from 2 obtain P where P:
    "memory_rows (save_preferences (insert_or_replace_memory db u ''preference'' k v now) u now items) =
       memory_rows (insert_or_replace_memory db u ''preference'' k v now) @ P"
    "\<forall>r \<in> set P. row_user_id r = u \<and> data_type r = ''preference''"
    "map (\<lambda>r. (row_key r, row_value r)) P = items"
    by blast
  have a: "memory_rows (save_preferences db u now ((k, v) # items)) = memory_rows db @ (?r # P)"
    using P(1) by (simp add: rows_insert_or_replace)
  have b: "\<forall>r \<in> set (?r # P). row_user_id r = u \<and> data_type r = ''preference''"
    using P(2) by simp
  have c: "map (\<lambda>r. (row_key r, row_value r)) (?r # P) = (k, v) # items"
    using P(3) by simp
  show ?case
  proof (intro exI conjI)
    show "memory_rows (save_preferences db u now ((k, v) # items)) = memory_rows db @ (?r # P)"
      by (rule a)
    show "\<forall>r \<in> set (?r # P). row_user_id r = u \<and> data_type r = ''preference''"
      by (rule b)
    show "map (\<lambda>r. (row_key r, row_value r)) (?r # P) = (k, v) # items"
      by (rule c)
  qed
qed

lemma history_row_exists_append:
  "memory_rows db' = memory_rows db @ new \<Longrightarrow> history_row_exists db u s \<Longrightarrow>
   history_row_exists db' u s"
  by (auto simp: history_row_exists_def)

lemma history_row_exists_rows:
  "memory_rows db' = memory_rows db \<Longrightarrow> history_row_exists db' u s = history_row_exists db u s"
  by (simp add: history_row_exists_def)

lemma rows_save_history:
  "\<exists>H. memory_rows (save_history dumps db u now label es) = memory_rows db @ H \<and>
       (\<forall>r \<in> set H. row_user_id r = u \<and> data_type r = ''history'' \<and> row_value r \<in> dumps ` set es)"
proof (induction es arbitrary: db)
  case Nil
  then show ?case by simp
next
  case (Cons e es)
  show ?case
  proof (cases "history_row_exists db u (dumps e)")
    case True
    from Cons.IH [of db] obtain H where
      "memory_rows (save_history dumps db u now label es) = memory_rows db @ H"
      "\<forall>r \<in> set H. row_user_id r = u \<and> data_type r = ''history'' \<and> row_value r \<in> dumps ` set es"
      by blast
    then show ?thesis using True by (auto simp: Let_def)
  next
    case False
    let ?db = "insert_memory db u ''history'' label (dumps e) now"
    let ?r = "\<lparr>row_id = next_row_id db, row_user_id = u, data_type = ''history'', row_key = label,
      row_value = dumps e, row_timestamp = now\<rparr>"
    from Cons.IH [of ?db] obtain H where H:
      "memory_rows (save_history dumps ?db u now label es) = memory_rows ?db @ H"
      "\<forall>r \<in> set H. row_user_id r = u \<and> data_type r = ''history'' \<and> row_value r \<in> dumps ` set es"
      by blast
    have "memory_rows (save_history dumps db u now label (e # es)) = memory_rows db @ (?r # H)"
      using False H(1) by (simp add: Let_def rows_insert)
    moreover have "\<forall>r \<in> set (?r # H). row_user_id r = u \<and> data_type r = ''history'' \<and>
        row_value r \<in> dumps ` set (e # es)"
      using H(2) by auto
    ultimately show ?thesis by blast
  qed
qed

lemma save_history_exists:
  "e \<in> set es \<Longrightarrow> history_row_exists (save_history dumps db u now label es) u (dumps e)"
proof (induction es arbitrary: db)
  case Nil
  then show ?case by simp
next
  case (Cons x es)
  let ?db = "if \<not> history_row_exists db u (dumps x)
             then insert_memory db u ''history'' label (dumps x) now else db"
  have step: "save_history dumps db u now label (x # es) = save_history dumps ?db u now label es"
    by (simp add: Let_def)
  have x: "history_row_exists ?db u (dumps x)"
    by (auto simp: history_row_exists_def rows_insert)
  show ?case
  proof (cases "e \<in> set es")
    case True
    then show ?thesis unfolding step by (rule Cons.IH)
  next
    case False
    with Cons.prems have ex: "e = x" by simp
    obtain H where "memory_rows (save_history dumps ?db u now label es) = memory_rows ?db @ H"
      using rows_save_history by blast
    then have "history_row_exists (save_history dumps ?db u now label es) u (dumps x)"
      using x by (rule history_row_exists_append)
    then show ?thesis unfolding step ex .
  qed
qed

lemma save_history_idle:
  "\<forall>e \<in> set es. history_row_exists db u (dumps e) \<Longrightarrow>
   save_history dumps db u now label es = db"
  by (induction es) (auto simp: Let_def)


lemma save3_rows:
  "\<exists>P H. memory_rows (save_long_term_memory3 dumps now db u m) = memory_rows db @ P @ H \<and>
     (\<forall>r \<in> set P. row_user_id r = u \<and> data_type r = ''preference'') \<and>
     map (\<lambda>r. (row_key r, row_value r)) P = preferences m \<and>
     (\<forall>r \<in> set H. row_user_id r = u \<and> data_type r = ''history'' \<and>
        row_value r \<in> dumps ` set (history m))"
proof -
  let ?db1 = "ensure_user db u now"
  let ?db2 = "save_preferences ?db1 u now (preferences m)"
  let ?label = "''interaction_'' @ str_of_nat (length (history m))"
  obtain P where P: "memory_rows ?db2 = memory_rows ?db1 @ P"
    "\<forall>r \<in> set P. row_user_id r = u \<and> data_type r = ''preference''"
    "map (\<lambda>r. (row_key r, row_value r)) P = preferences m"
    using rows_save_preferences [of ?db1 u now "preferences m"] by blast
  obtain H where H: "memory_rows (save_history dumps ?db2 u now ?label (history m)) = memory_rows ?db2 @ H"
    "\<forall>r \<in> set H. row_user_id r = u \<and> data_type r = ''history'' \<and>
        row_value r \<in> dumps ` set (history m)"
    using rows_save_history [of dumps ?db2 u now ?label "history m"] by blast
  have a: "memory_rows (save_long_term_memory3 dumps now db u m) = memory_rows db @ P @ H"
    using H(1) P(1) by (simp add: save_long_term_memory3_def Let_def rows_ensure_user)
  show ?thesis
  proof (intro exI conjI)
    show "memory_rows (save_long_term_memory3 dumps now db u m) = memory_rows db @ P @ H" by (rule a)
    show "\<forall>r \<in> set P. row_user_id r = u \<and> data_type r = ''preference''" by (rule P(2))
    show "map (\<lambda>r. (row_key r, row_value r)) P = preferences m" by (rule P(3))
    show "\<forall>r \<in> set H. row_user_id r = u \<and> data_type r = ''history'' \<and>
        row_value r \<in> dumps ` set (history m)" by (rule H(2))
  qed
qed

lemma save3_exists:
  "e \<in> set (history m) \<Longrightarrow>
   history_row_exists (save_long_term_memory3 dumps now db u m) u (dumps e)"
  by (simp add: save_long_term_memory3_def Let_def save_history_exists)

lemma save3_again:
  assumes "\<forall>e \<in> set (history m). history_row_exists db u (dumps e)"
  shows "\<exists>P. memory_rows (save_long_term_memory3 dumps now db u m) = memory_rows db @ P \<and>
     (\<forall>r \<in> set P. data_type r = ''preference'')"
proof -
  let ?db1 = "ensure_user db u now"
  let ?db2 = "save_preferences ?db1 u now (preferences m)"
  let ?label = "''interaction_'' @ str_of_nat (length (history m))"
  obtain P where P: "memory_rows ?db2 = memory_rows ?db1 @ P"
    "\<forall>r \<in> set P. row_user_id r = u \<and> data_type r = ''preference''"
    using rows_save_preferences [of ?db1 u now "preferences m"] by blast
  have r2: "memory_rows ?db2 = memory_rows db @ P" using P(1) by (simp add: rows_ensure_user)
  have "\<forall>e \<in> set (history m). history_row_exists ?db2 u (dumps e)"
    using assms history_row_exists_append [OF r2] by blast
  then have "save_history dumps ?db2 u now ?label (history m) = ?db2"
    by (rule save_history_idle)
  then have a: "memory_rows (save_long_term_memory3 dumps now db u m) = memory_rows db @ P"
    by (simp add: save_long_term_memory3_def Let_def r2)
  show ?thesis
  proof (intro exI conjI)
    show "memory_rows (save_long_term_memory3 dumps now db u m) = memory_rows db @ P" by (rule a)
    show "\<forall>r \<in> set P. data_type r = ''preference''" using P(2) by blast
  qed
qed

lemma history_rows_append_prefs:
  assumes "memory_rows db' = memory_rows db @ P" and "\<forall>r \<in> set P. data_type r = ''preference''"
  shows "history_rows db' u = history_rows db u"
proof -
  have "filter (\<lambda>r. row_user_id r = u \<and> data_type r = ''history'') P = []"
    using assms(2) by (auto simp: filter_empty_conv)
  then show ?thesis by (simp add: history_rows_def assms(1))
qed

lemma history_load_rows:
  "history (load_rows loads m rows) =
     history m @ List.map_filter loads (map row_value (filter (\<lambda>r. data_type r = ''history'') rows))"
  by (induction rows arbitrary: m) (auto split: option.splits)

lemma history_load3:
  "history (snd (load_long_term_memory3 loads now db u)) =
     List.map_filter loads (map row_value (history_rows db u))"
  by (simp add: load_long_term_memory3_def Let_def history_load_rows empty_memory_def
      rows_ensure_user history_rows_def conj_commute)

lemma history_rows_save_history_distinct:
  "distinct (map row_value (history_rows db u)) \<Longrightarrow>
   distinct (map row_value (history_rows (save_history dumps db u now label es) u))"
proof (induction es arbitrary: db)
  case Nil
  then show ?case by simp
next
  case (Cons e es)
  show ?case
  proof (cases "history_row_exists db u (dumps e)")
    case True
    then show ?thesis using Cons by (simp add: Let_def)
  next
    case False
    let ?db = "insert_memory db u ''history'' label (dumps e) now"
    have new: "dumps e \<notin> set (map row_value (history_rows db u))"
      using False by (auto simp: history_row_exists_def history_rows_def)
    have "history_rows ?db u = history_rows db u @
        [\<lparr>row_id = next_row_id db, row_user_id = u, data_type = ''history'', row_key = label,
          row_value = dumps e, row_timestamp = now\<rparr>]"
      by (simp add: history_rows_def rows_insert)
    then have "distinct (map row_value (history_rows ?db u))"
      using Cons.prems new by simp
    then have "distinct (map row_value (history_rows (save_history dumps ?db u now label es) u))"
      by (rule Cons.IH)
    then show ?thesis using False by (simp add: Let_def)
  qed
qed

lemma history_rows_save_preferences:
  "history_rows (save_preferences db u now ps) v = history_rows db v"
proof -
  obtain P where "memory_rows (save_preferences db u now ps) = memory_rows db @ P"
    "\<forall>r \<in> set P. row_user_id r = u \<and> data_type r = ''preference''"
    using rows_save_preferences [of db u now ps] by blast
  then show ?thesis using history_rows_append_prefs [of _ db P v] by blast
qed

text \<open>
  Claim C3. In the SQLite store, saving the same memory for the same user a second time
  leaves the rows of the user's history exactly as the first save left them, so the
  history loaded afterwards, and its length, are the same. An entry is inserted only when
  no row of the user's history holds its serialised text, so a save never adds a row
  whose text another row of that history already has: a history free of duplicates stays
  free of them.
\<close>

theorem save_twice_no_duplicates:
  "history_rows (save_long_term_memory3 dumps now2 (save_long_term_memory3 dumps now1 db u m) u m) u =
     history_rows (save_long_term_memory3 dumps now1 db u m) u \<and>
   history (snd (load_long_term_memory3 loads now3
       (save_long_term_memory3 dumps now2 (save_long_term_memory3 dumps now1 db u m) u m) u)) =
     history (snd (load_long_term_memory3 loads now3 (save_long_term_memory3 dumps now1 db u m) u)) \<and>
   length (history (snd (load_long_term_memory3 loads now3
       (save_long_term_memory3 dumps now2 (save_long_term_memory3 dumps now1 db u m) u m) u))) =
     length (history (snd (load_long_term_memory3 loads now3
       (save_long_term_memory3 dumps now1 db u m) u))) \<and>
   (distinct (map row_value (history_rows db u)) \<longrightarrow>
    distinct (map row_value (history_rows (save_long_term_memory3 dumps now1 db u m) u)))"
proof -
  let ?db1 = "save_long_term_memory3 dumps now1 db u m"
  let ?db2 = "save_long_term_memory3 dumps now2 ?db1 u m"
  have "\<forall>e \<in> set (history m). history_row_exists ?db1 u (dumps e)"
    using save3_exists by blast
  then obtain P where "memory_rows ?db2 = memory_rows ?db1 @ P"
    "\<forall>r \<in> set P. data_type r = ''preference''"
    using save3_again [of m ?db1 u dumps now2] by blast
  then have h: "history_rows ?db2 u = history_rows ?db1 u"
    by (rule history_rows_append_prefs)
  have d: "distinct (map row_value (history_rows ?db1 u))"
    if "distinct (map row_value (history_rows db u))"
  proof -
    have "history_rows (save_preferences (ensure_user db u now1) u now1 (preferences m)) u =
        history_rows db u"
      by (simp add: history_rows_save_preferences) (simp add: history_rows_def rows_ensure_user)
    with that show ?thesis
      by (simp add: save_long_term_memory3_def Let_def history_rows_save_history_distinct)
  qed
  show ?thesis using h d by (simp add: history_load3)
qed


theorem save_twice_no_duplicates_witness:
  "distinct (map row_value (history_rows
     (save_long_term_memory3 (\<lambda>e. user_input e @ ''|'' @ assistant_response e) ''t1''
        \<lparr>users = [], memory_rows = [], memory_seq = 0\<rparr> ''u1''
        \<lparr>preferences = [],
         history = [\<lparr>user_input = ''hi'', assistant_response = ''hello''\<rparr>,
                    \<lparr>user_input = ''hi'', assistant_response = ''hello''\<rparr>]\<rparr>) ''u1''))"
proof -
  have d: "distinct (map row_value (history_rows \<lparr>users = [], memory_rows = [], memory_seq = 0\<rparr> ''u1''))"
    by (simp add: history_rows_def)
  show ?thesis
    using save_twice_no_duplicates [of "\<lambda>e. user_input e @ ''|'' @ assistant_response e" "''t2''"
        "''t1''" "\<lparr>users = [], memory_rows = [], memory_seq = 0\<rparr>" "''u1''"
        "\<lparr>preferences = [],
         history = [\<lparr>user_input = ''hi'', assistant_response = ''hello''\<rparr>,
                    \<lparr>user_input = ''hi'', assistant_response = ''hello''\<rparr>]\<rparr>"] d
    by blast
qed

lemma keys_dict_set:
  "map fst (dict_set d k v) = (if k \<in> set (map fst d) then map fst d else map fst d @ [k])"
  by (induction d k v rule: dict_set.induct) auto

lemma distinct_dict_set: "distinct (map fst d) \<Longrightarrow> distinct (map fst (dict_set d k v))"
  by (simp add: keys_dict_set)

lemma distinct_load_rows:
  "distinct (map fst (preferences m)) \<Longrightarrow>
   distinct (map fst (preferences (load_rows loads m rows)))"
  by (induction rows arbitrary: m) (auto simp: distinct_dict_set split: option.splits)

lemma prefs_load_rows:
  "map_of (preferences (load_rows loads m rows)) =
     map_of (preferences m) ++
     map_of (rev (map (\<lambda>r. (row_key r, row_value r))
       (filter (\<lambda>r. data_type r = ''preference'') rows)))"
proof (induction rows arbitrary: m)
  case Nil
  then show ?case by simp
next
  case (Cons r rows)
  show ?case
  proof (cases "data_type r = ''preference''")
    case True
    then show ?thesis
      by (simp add: Cons.IH map_of_dict_set) (simp add: map_add_def fun_eq_iff split: option.splits)
  next
    case False
    then show ?thesis by (auto simp: Cons.IH split: option.splits)
  qed
qed

lemma map_of_rev_distinct:
  "distinct (map fst ps) \<Longrightarrow> (k, v) \<in> set ps \<Longrightarrow> map_of (rev ps) k = Some v"
  by (rule map_of_is_SomeI) (simp_all add: rev_map [symmetric])

text \<open>
  Claim C7. In the SQLite store, after a save with any preferences and then a save whose
  preferences map a key to a value, the memory loaded for that user maps the key to the
  value of the second save, and its keys are pairwise distinct. For example, \<open>location\<close>
  saved as Paris and then as Rome reloads as Rome.
\<close>

theorem preferences_last_write_wins:
  assumes "distinct (map fst (preferences m2))" and "(k, v) \<in> set (preferences m2)"
  shows "map_of (preferences (snd (load_long_term_memory3 loads now3
           (save_long_term_memory3 dumps now2 (save_long_term_memory3 dumps now1 db u m1) u m2) u))) k =
           Some v \<and>
         distinct (map fst (preferences (snd (load_long_term_memory3 loads now3
           (save_long_term_memory3 dumps now2 (save_long_term_memory3 dumps now1 db u m1) u m2) u))))"
proof -
  let ?db1 = "save_long_term_memory3 dumps now1 db u m1"
  let ?db2 = "save_long_term_memory3 dumps now2 ?db1 u m2"
  let ?kv = "map (\<lambda>r. (row_key r, row_value r))"
  let ?pref = "filter (\<lambda>r. data_type r = ''preference'')"
  let ?mine = "filter (\<lambda>r. row_user_id r = u)"
  obtain P H where PH: "memory_rows ?db2 = memory_rows ?db1 @ P @ H"
    "\<forall>r \<in> set P. row_user_id r = u \<and> data_type r = ''preference''"
    "?kv P = preferences m2"
    "\<forall>r \<in> set H. row_user_id r = u \<and> data_type r = ''history'' \<and>
        row_value r \<in> dumps ` set (history m2)"
    using save3_rows [of dumps now2 ?db1 u m2] by blast
  have P: "?pref (?mine P) = P" using PH(2) by (simp add: filter_id_conv)
  have H: "?pref (?mine H) = []" using PH(4) by (auto simp: filter_empty_conv)
  have rows: "?kv (?pref (?mine (memory_rows ?db2))) =
      ?kv (?pref (?mine (memory_rows ?db1))) @ preferences m2"
    using P H PH(3) by (simp add: PH(1))
  have l: "preferences (snd (load_long_term_memory3 loads now3 ?db2 u)) =
      preferences (load_rows loads empty_memory (?mine (memory_rows ?db2)))"
    by (simp add: load_long_term_memory3_def Let_def rows_ensure_user)
  have "map_of (rev (preferences m2)) k = Some v"
    using assms by (rule map_of_rev_distinct)
  then have "map_of (rev (?kv (?pref (?mine (memory_rows ?db1))) @ preferences m2)) k = Some v"
    by (simp add: map_add_Some_iff)
  moreover have "map_of (preferences (load_rows loads empty_memory (?mine (memory_rows ?db2)))) =
      map_of (preferences empty_memory) ++
      map_of (rev (?kv (?pref (?mine (memory_rows ?db1))) @ preferences m2))"
    unfolding prefs_load_rows rows ..
  ultimately have "map_of (preferences (load_rows loads empty_memory (?mine (memory_rows ?db2)))) k = Some v"
    by (simp only: map_add_Some_iff simp_thms)
  moreover have "distinct (map fst (preferences (load_rows loads empty_memory (?mine (memory_rows ?db2)))))"
    by (rule distinct_load_rows) (simp add: empty_memory_def)
  ultimately show ?thesis unfolding l by simp
qed

theorem preferences_last_write_wins_witness:
  "map_of (preferences (snd (load_long_term_memory3 (\<lambda>t. None) ''t3''
     (save_long_term_memory3 (\<lambda>e. user_input e) ''t2''
       (save_long_term_memory3 (\<lambda>e. user_input e) ''t1''
          \<lparr>users = [], memory_rows = [], memory_seq = 0\<rparr> ''u1''
          \<lparr>preferences = [(''location'', ''Paris'')], history = []\<rparr>)
       ''u1'' \<lparr>preferences = [(''location'', ''Rome'')], history = []\<rparr>) ''u1''))) ''location'' =
   Some ''Rome''"
  using preferences_last_write_wins [of "\<lparr>preferences = [(''location'', ''Rome'')], history = []\<rparr>"
      "''location''" "''Rome''" "\<lambda>t. None" "''t3''" "\<lambda>e. user_input e" "''t2''" "''t1''"
      "\<lparr>users = [], memory_rows = [], memory_seq = 0\<rparr>" "''u1''"
      "\<lparr>preferences = [(''location'', ''Paris'')], history = []\<rparr>"]
  by simp

section \<open>The context composer\<close>







end
